theory Spec2Isabelle
  imports Complex_Main "HOL-Library.Sublist"
begin

section \<open>Strings\<close>

text \<open>
  A Python \<open>str\<close> is modelled as a \<open>string\<close>, a list of characters with code points
  below 256. The character classes are Python's on that range: \<open>str.isspace\<close> (which is
  also what \<open>str.split()\<close>, \<open>str.strip()\<close> and the pattern \<open>\s\<close> use), \<open>str.isalnum\<close>
  (the pattern \<open>\w\<close> is \<open>isalnum\<close> or the underscore) and \<open>str.lower\<close>.
\<close>

definition isspace :: "char \<Rightarrow> bool" where
  "isspace c =
     (let n = (of_char c :: nat)
      in (9 \<le> n \<and> n \<le> 13) \<or> (28 \<le> n \<and> n \<le> 32) \<or> n = 133 \<or> n = 160)"

definition isalnum :: "char \<Rightarrow> bool" where
  "isalnum c =
     (let n = (of_char c :: nat)
      in (48 \<le> n \<and> n \<le> 57) \<or> (65 \<le> n \<and> n \<le> 90) \<or> (97 \<le> n \<and> n \<le> 122) \<or>
         n = 170 \<or> n = 178 \<or> n = 179 \<or> n = 181 \<or> n = 185 \<or> n = 186 \<or>
         (188 \<le> n \<and> n \<le> 190) \<or> (192 \<le> n \<and> n \<le> 214) \<or>
         (216 \<le> n \<and> n \<le> 246) \<or> (248 \<le> n \<and> n \<le> 255))"

text \<open>The class \<open>\w\<close> of the \<open>re\<close> module on \<open>str\<close> patterns.\<close>

definition word_char :: "char \<Rightarrow> bool" where
  "word_char c = (isalnum c \<or> c = CHR ''_'')"

definition lower_char :: "char \<Rightarrow> char" where
  "lower_char c =
     (let n = (of_char c :: nat)
      in if (65 \<le> n \<and> n \<le> 90) \<or> (192 \<le> n \<and> n \<le> 214) \<or> (216 \<le> n \<and> n \<le> 222)
         then char_of (n + 32) else c)"

text \<open>\<open>text.lower()\<close>\<close>

definition str_lower :: "string \<Rightarrow> string" where
  "str_lower s = map lower_char s"

text \<open>\<open>text.split()\<close>: the maximal runs of non-whitespace characters, in order.\<close>

function str_split :: "string \<Rightarrow> string list" where
  "str_split s =
     (case dropWhile isspace s of
        [] \<Rightarrow> []
      | c # cs \<Rightarrow> takeWhile (\<lambda>x. \<not> isspace x) (c # cs)
                 # str_split (dropWhile (\<lambda>x. \<not> isspace x) (c # cs)))"
  by pat_completeness auto
termination
proof (relation "measure length")
  show "wf (measure length)" by simp
next
  fix s :: string and c cs
  assume h: "dropWhile isspace s = c # cs"
  have "\<not> isspace c" using h by (metis hd_dropWhile list.sel(1) list.simps(3))
  then have "length (dropWhile (\<lambda>x. \<not> isspace x) (c # cs)) \<le> length cs"
    by (simp add: length_dropWhile_le)
  moreover have "length (c # cs) \<le> length s"
    using h length_dropWhile_le [of isspace s] by simp
  ultimately show "(dropWhile (\<lambda>x. \<not> isspace x) (c # cs), s) \<in> measure length"
    by simp
qed

declare str_split.simps [simp del]

text \<open>\<open>" ".join(words)\<close>\<close>

fun str_join :: "string list \<Rightarrow> string" where
  "str_join [] = []"
| "str_join [w] = w"
| "str_join (w # v # ws) = w @ CHR '' '' # str_join (v # ws)"

text \<open>\<open>text.strip()\<close>\<close>

definition str_strip :: "string \<Rightarrow> string" where
  "str_strip s = rev (dropWhile isspace (rev (dropWhile isspace s)))"

text \<open>
  The number of words of a text, counted in one pass: \<open>b\<close> tells whether the previous
  character was part of a word. It is \<open>len(text.split())\<close> (lemma \<open>length_str_split\<close>).
\<close>

fun wcount :: "bool \<Rightarrow> string \<Rightarrow> nat" where
  "wcount b [] = 0"
| "wcount b (c # cs) =
     (if isspace c then wcount False cs else (if b then 0 else 1) + wcount True cs)"

text \<open>A word: what \<open>str.split()\<close> returns, a non-empty run without whitespace.\<close>

definition is_word :: "string \<Rightarrow> bool" where
  "is_word w = (w \<noteq> [] \<and> (\<forall>c\<in>set w. \<not> isspace c))"

section \<open>Text normalisation (app/utils/preprocessing.py)\<close>

subsection \<open>\<open>re.sub(r'<.*?>', '', text)\<close>\<close>

text \<open>
  After an opening angle bracket, the lazy \<open>.*?\<close> stops at the first closing bracket and
  cannot cross a newline: \<open>tag_rest\<close> gives what follows the closing bracket, or \<open>None\<close>
  when the pattern does not match at this opening bracket.
\<close>

fun tag_rest :: "string \<Rightarrow> string option" where
  "tag_rest [] = None"
| "tag_rest (c # cs) =
     (if c = CHR ''>'' then Some cs
      else if c = CHR 0x0A then None
      else tag_rest cs)"

lemma tag_rest_length: "tag_rest cs = Some r \<Longrightarrow> length r < Suc (length cs)"
  by (induction cs) (auto split: if_splits)

function sub_html :: "string \<Rightarrow> string" where
  "sub_html [] = []"
| "sub_html (c # cs) =
     (if c = CHR ''<'' then
        (case tag_rest cs of
           Some r \<Rightarrow> sub_html r
         | None \<Rightarrow> c # sub_html cs)
      else c # sub_html cs)"
  by pat_completeness auto
termination
  by (relation "measure length") (auto dest: tag_rest_length)

subsection \<open>\<open>re.sub(r'https?://\S+|www\.\S+', '', text)\<close>\<close>

text \<open>A literal at the start of the text: what follows it.\<close>

fun literal :: "string \<Rightarrow> string \<Rightarrow> string option" where
  "literal [] s = Some s"
| "literal (p # ps) [] = None"
| "literal (p # ps) (c # cs) = (if p = c then literal ps cs else None)"

text \<open>The greedy \<open>\S+\<close> at the end of an alternative: what follows the run.\<close>

definition nonspace_run :: "string \<Rightarrow> string option" where
  "nonspace_run s =
     (case s of
        [] \<Rightarrow> None
      | c # cs \<Rightarrow> if isspace c then None else Some (dropWhile (\<lambda>x. \<not> isspace x) cs))"

definition orelse :: "'a option \<Rightarrow> 'a option \<Rightarrow> 'a option" where
  "orelse a b = (case a of Some x \<Rightarrow> Some x | None \<Rightarrow> b)"

text \<open>
  The pattern at the start of the text, in the order the matcher tries it: \<open>https://\<close>
  (the optional \<open>s\<close> is greedy), then \<open>http://\<close>, then \<open>www.\<close>.
\<close>

definition url_match :: "string \<Rightarrow> string option" where
  "url_match s =
     orelse (Option.bind (literal ''https://'' s) nonspace_run)
       (orelse (Option.bind (literal ''http://'' s) nonspace_run)
          (Option.bind (literal ''www.'' s) nonspace_run))"

lemma literal_length: "literal p s = Some r \<Longrightarrow> length r \<le> length s"
  by (induction p s rule: literal.induct) (auto split: if_splits)

lemma nonspace_run_length: "nonspace_run s = Some r \<Longrightarrow> length r < length s"
  by (auto simp: nonspace_run_def le_imp_less_Suc length_dropWhile_le
      split: list.splits if_splits)

lemma url_match_length: "url_match s = Some r \<Longrightarrow> length r < length s"
  by (auto simp: url_match_def orelse_def Option.bind_eq_Some_conv
      split: option.splits dest!: literal_length nonspace_run_length)

function sub_urls :: "string \<Rightarrow> string" where
  "sub_urls [] = []"
| "sub_urls (c # cs) =
     (case url_match (c # cs) of
        Some r \<Rightarrow> sub_urls r
      | None \<Rightarrow> c # sub_urls cs)"
  by pat_completeness auto
termination
  by (relation "measure length") (auto dest: url_match_length)

subsection \<open>\<open>re.sub(r'[^\w\s.,!?]', '', text)\<close>\<close>

definition kept_char :: "char \<Rightarrow> bool" where
  "kept_char c = (word_char c \<or> isspace c \<or> c \<in> set ''.,!?'')"

definition sub_special :: "string \<Rightarrow> string" where
  "sub_special s = filter kept_char s"

subsection \<open>\<open>re.sub(r'\s+', ' ', text)\<close>\<close>

function sub_spaces :: "string \<Rightarrow> string" where
  "sub_spaces [] = []"
| "sub_spaces (c # cs) =
     (if isspace c then CHR '' '' # sub_spaces (dropWhile isspace cs)
      else c # sub_spaces cs)"
  by pat_completeness auto
termination
  by (relation "measure length") (auto simp: le_imp_less_Suc length_dropWhile_le)

subsection \<open>\<open>preprocess_text\<close>\<close>

definition preprocess_text :: "string \<Rightarrow> string" where
  "preprocess_text text =
     (let text = str_lower text;
          text = sub_html text;
          text = sub_urls text;
          text = sub_special text;
          text = str_strip (sub_spaces text)
      in text)"

section \<open>The sentiment model (app/models/sentiment.py)\<close>

text \<open>
  The transformers pipeline is external: a function from the submitted text to either an
  exception (its message) or the label and score of the first result. The calls of
  \<open>SentimentAnalyzer.analyze\<close> are recorded, in order, in a trace that every operation takes
  and returns: for each call, the text the analyzer was given and the text it submitted to
  the pipeline.
\<close>

type_synonym pipeline = "string \<Rightarrow> string + (string \<times> real)"

type_synonym calls = "(string \<times> string) list"

record analysis =
  sentiment :: string
  confidence :: real
  normalized_score :: real
  detailed_scores :: "(string \<times> real) list"

text \<open>
  \<open>SentimentAnalyzer.analyze\<close>; scores are exact reals. Its first three lines, which fix the
  text that is submitted to the pipeline, are \<open>pipeline_input\<close>.
\<close>

definition pipeline_input :: "string \<Rightarrow> string" where
  "pipeline_input text =
     (let words = str_split text
      in if length words > 250 then str_join (take 250 words) else text)"

definition analyze :: "pipeline \<Rightarrow> string \<Rightarrow> calls \<Rightarrow> (string + analysis) \<times> calls" where
  "analyze sentiment_pipeline text trace =
     (let submitted = pipeline_input text
      in case sentiment_pipeline submitted of
           Inl e \<Rightarrow> (Inl e, trace @ [(text, submitted)])
         | Inr (label, score) \<Rightarrow>
             (let sentiment = (if label = ''POSITIVE'' then ''positive'' else ''negative'');
                  normalized_score = (if sentiment = ''positive'' then score else - score)
              in (Inr \<lparr>sentiment = sentiment,
                       confidence = score,
                       normalized_score = normalized_score,
                       detailed_scores =
                         [(''POSITIVE'', if sentiment = ''positive'' then score else 1 - score),
                          (''NEGATIVE'', if sentiment = ''negative'' then score else 1 - score)]\<rparr>,
                  trace @ [(text, submitted)])))"

section \<open>The endpoints (app/api/endpoints.py)\<close>

text \<open>
  The models of the request and response bodies. The field \<open>text\<close> is \<open>review_text\<close> and the
  field \<open>truncate\<close> is \<open>truncate_flag\<close> here.
\<close>

record ReviewRequest =
  review_text :: string
  review_id :: "string option"
  source :: "string option"
  truncate_flag :: bool

record BatchReviewRequest =
  reviews :: "ReviewRequest list"
  truncate_flag :: bool

record SentimentResponse = analysis +
  review_id :: "string option"
  source :: "string option"
  truncated :: bool

record BatchSentimentResponse =
  results :: "SentimentResponse list"

record HTTPException =
  status_code :: nat
  detail :: string

text \<open>\<open>str(x)\<close> of an optional string, as an f-string formats it.\<close>

definition str_of :: "string option \<Rightarrow> string" where
  "str_of x = (case x of None \<Rightarrow> ''None'' | Some s \<Rightarrow> s)"

text \<open>\<open>POST /analyze\<close>\<close>

definition analyze_sentiment ::
  "pipeline \<Rightarrow> ReviewRequest \<Rightarrow> calls \<Rightarrow> (HTTPException + SentimentResponse) \<times> calls" where
  "analyze_sentiment sentiment_pipeline review trace =
     (let words = str_split (review_text review);
          was_truncated = (length words > 250)
      in if was_truncated \<and> \<not> ReviewRequest.truncate_flag review then
           (Inl \<lparr>status_code = 400,
                 detail = ''Text exceeds model'' @ [CHR 0x27] @
                   ''s token limit (>250 words / ~512 tokens) and truncation is disabled''\<rparr>,
            trace)
         else
           (let processed_text = preprocess_text (review_text review);
                processed_text =
                  (if was_truncated \<and> ReviewRequest.truncate_flag review
                   then str_join (take 500 (str_split processed_text))
                   else processed_text)
            in case analyze sentiment_pipeline processed_text trace of
                 (Inl e, trace') \<Rightarrow>
                   (Inl \<lparr>status_code = 500, detail = ''Error analyzing sentiment: '' @ e\<rparr>,
                    trace')
               | (Inr analysis_results, trace') \<Rightarrow>
                   (Inr \<lparr>sentiment = sentiment analysis_results,
                         confidence = confidence analysis_results,
                         normalized_score = normalized_score analysis_results,
                         detailed_scores = detailed_scores analysis_results,
                         review_id = ReviewRequest.review_id review,
                         source = ReviewRequest.source review,
                         truncated = (was_truncated \<and> ReviewRequest.truncate_flag review)\<rparr>,
                    trace')))"

text \<open>
  \<open>hasattr(review, 'truncate')\<close>: \<open>truncate\<close> is a declared field of the request model, so
  every instance has the attribute, set from the body or from the field's default.
\<close>

definition hasattr_truncate :: "ReviewRequest \<Rightarrow> bool" where
  "hasattr_truncate review = True"

text \<open>One iteration of the loop of \<open>analyze_batch\<close>, up to the response item.\<close>

definition batch_item ::
  "pipeline \<Rightarrow> BatchReviewRequest \<Rightarrow> ReviewRequest \<Rightarrow> calls
     \<Rightarrow> (HTTPException + SentimentResponse) \<times> calls" where
  "batch_item sentiment_pipeline request review trace =
     (let review = (if \<not> hasattr_truncate review
                    then review\<lparr>ReviewRequest.truncate_flag := BatchReviewRequest.truncate_flag request\<rparr>
                    else review);
          words = str_split (review_text review);
          was_truncated = (length words > 250)
      in if was_truncated \<and> \<not> ReviewRequest.truncate_flag review then
           (Inl \<lparr>status_code = 400,
                 detail = ''Review '' @ str_of (ReviewRequest.review_id review) @
                   '' exceeds model'' @ [CHR 0x27] @
                   ''s token limit (>250 words / ~512 tokens) and truncation is disabled''\<rparr>,
            trace)
         else
           (let processed_text = preprocess_text (review_text review);
                processed_text =
                  (if was_truncated \<and> ReviewRequest.truncate_flag review
                   then str_join (take 250 (str_split processed_text))
                   else processed_text)
            in if length (str_split processed_text) > 250 \<and> \<not> ReviewRequest.truncate_flag review then
                 (Inl \<lparr>status_code = 400,
                       detail = ''Text is too long after preprocessing and truncation is disabled''\<rparr>,
                  trace)
               else
                 (case analyze sentiment_pipeline processed_text trace of
                    (Inl e, trace') \<Rightarrow>
                      (Inl \<lparr>status_code = 500,
                            detail = ''Error analyzing batch sentiment: '' @ e\<rparr>,
                       trace')
                  | (Inr analysis_results, trace') \<Rightarrow>
                      (Inr \<lparr>sentiment = sentiment analysis_results,
                            confidence = confidence analysis_results,
                            normalized_score = normalized_score analysis_results,
                            detailed_scores = detailed_scores analysis_results,
                            review_id = ReviewRequest.review_id review,
                            source = ReviewRequest.source review,
                            truncated = (was_truncated \<and> ReviewRequest.truncate_flag review)\<rparr>,
                       trace'))))"

text \<open>The loop: the first exception ends it, and the results collected so far are dropped.\<close>

fun batch_loop ::
  "pipeline \<Rightarrow> BatchReviewRequest \<Rightarrow> ReviewRequest list \<Rightarrow> SentimentResponse list \<Rightarrow> calls
     \<Rightarrow> (HTTPException + BatchSentimentResponse) \<times> calls" where
  "batch_loop sentiment_pipeline request [] collected trace =
     (Inr \<lparr>results = collected\<rparr>, trace)"
| "batch_loop sentiment_pipeline request (review # rest) collected trace =
     (case batch_item sentiment_pipeline request review trace of
        (Inl e, trace') \<Rightarrow> (Inl e, trace')
      | (Inr item, trace') \<Rightarrow>
          batch_loop sentiment_pipeline request rest (collected @ [item]) trace')"

text \<open>\<open>POST /analyze/batch\<close>\<close>

definition analyze_batch ::
  "pipeline \<Rightarrow> BatchReviewRequest \<Rightarrow> calls \<Rightarrow> (HTTPException + BatchSentimentResponse) \<times> calls" where
  "analyze_batch sentiment_pipeline request trace =
     batch_loop sentiment_pipeline request (reviews request) [] trace"

section \<open>Example inputs\<close>

text \<open>A pipeline that answers every text with the same label and score.\<close>

definition const_pipeline :: "string \<Rightarrow> real \<Rightarrow> pipeline" where
  "const_pipeline label score = (\<lambda>text. Inr (label, score))"

text \<open>A pipeline that raises on every text.\<close>

definition failing_pipeline :: pipeline where
  "failing_pipeline = (\<lambda>text. Inl ''model error'')"

text \<open>\<open>(c + " ") * n\<close>: a text of \<open>n\<close> one-character words.\<close>

definition repeated :: "nat \<Rightarrow> char \<Rightarrow> string" where
  "repeated n c = concat (replicate n [c, CHR '' ''])"

section \<open>Properties of the string operations\<close>


lemma str_split_Nil [simp]: "str_split [] = []"
  by (simp add: str_split.simps)

lemma str_split_space [simp]: "isspace c \<Longrightarrow> str_split (c # cs) = str_split cs"
  by (subst str_split.simps, subst (2) str_split.simps) simp

lemma str_split_nonspace:
  "\<not> isspace c \<Longrightarrow>
   str_split (c # cs) =
     (c # takeWhile (\<lambda>x. \<not> isspace x) cs) # str_split (dropWhile (\<lambda>x. \<not> isspace x) cs)"
  by (subst str_split.simps) simp

lemma wcount_dropWhile: "wcount True cs = wcount False (dropWhile (\<lambda>x. \<not> isspace x) cs)"
  by (induction cs) auto

lemma length_str_split: "length (str_split s) = wcount False s"
proof (induction s rule: length_induct)
  case (1 s)
  show ?case
  proof (cases s)
    case Nil
    then show ?thesis by simp
  next
    case (Cons c cs)
    show ?thesis
    proof (cases "isspace c")
      case True
      with Cons 1 show ?thesis by simp
    next
      case False
      have "length (dropWhile (\<lambda>x. \<not> isspace x) cs) < length s"
        using Cons by (simp add: le_imp_less_Suc length_dropWhile_le)
      with 1 have "length (str_split (dropWhile (\<lambda>x. \<not> isspace x) cs))
          = wcount False (dropWhile (\<lambda>x. \<not> isspace x) cs)" by blast
      with False Cons show ?thesis
        by (simp add: str_split_nonspace wcount_dropWhile)
    qed
  qed
qed

lemma wcount_flag: "wcount True s \<le> wcount False s \<and> wcount False s \<le> Suc (wcount True s)"
  by (cases s) auto

lemma wcount_subseq: "subseq xs ys \<Longrightarrow> wcount b xs \<le> wcount b ys"
proof (induction xs ys arbitrary: b rule: list_emb.induct)
  case (list_emb_Nil ys)
  then show ?case by simp
next
  case (list_emb_Cons xs ys y)
  have "wcount b xs \<le> wcount b ys" by (rule list_emb_Cons.IH)
  moreover have "wcount b ys \<le> wcount b (y # ys)"
    using wcount_flag [of ys] by (cases b) auto
  ultimately show ?case by simp
next
  case (list_emb_Cons2 x y xs ys)
  then show ?case by auto
qed

lemma word_count_subseq: "subseq xs ys \<Longrightarrow> length (str_split xs) \<le> length (str_split ys)"
  by (simp add: length_str_split wcount_subseq)


subsection \<open>Removal steps delete characters\<close>

lemma tag_rest_suffix: "tag_rest cs = Some r \<Longrightarrow> suffix r cs"
  by (induction cs) (auto split: if_splits simp: suffix_Cons)

lemma subseq_sub_html: "subseq (sub_html s) s"
proof (induction s rule: sub_html.induct)
  case 1
  then show ?case by simp
next
  case (2 c cs)
  show ?case
  proof (cases "c = CHR ''<''")
    case False
    with 2 show ?thesis by simp
  next
    case True
    show ?thesis
    proof (cases "tag_rest cs")
      case None
      with True 2 show ?thesis by simp
    next
      case (Some r)
      then have "subseq r (c # cs)"
        using tag_rest_suffix [OF Some] by (blast intro: suffix_imp_subseq suffix_ConsI)
      moreover have "subseq (sub_html r) r" using 2 True Some by simp
      ultimately have "subseq (sub_html r) (c # cs)" by (rule subseq_order.trans [rotated])
      with True Some show ?thesis by simp
    qed
  qed
qed

lemma literal_suffix: "literal p s = Some r \<Longrightarrow> suffix r s"
  by (induction p s rule: literal.induct) (auto split: if_splits simp: suffix_Cons)

lemma nonspace_run_suffix: "nonspace_run s = Some r \<Longrightarrow> suffix r s"
  by (auto simp: nonspace_run_def suffix_Cons suffix_dropWhile split: list.splits if_splits)

lemma url_match_suffix: "url_match s = Some r \<Longrightarrow> suffix r s"
  by (auto simp: url_match_def orelse_def Option.bind_eq_Some_conv
      split: option.splits dest!: literal_suffix nonspace_run_suffix
      intro: suffix_order.trans)

lemma subseq_sub_urls: "subseq (sub_urls s) s"
proof (induction s rule: sub_urls.induct)
  case 1
  then show ?case by simp
next
  case (2 c cs)
  show ?case
  proof (cases "url_match (c # cs)")
    case None
    with 2 show ?thesis by simp
  next
    case (Some r)
    have "subseq r (c # cs)" using url_match_suffix [OF Some] by (rule suffix_imp_subseq)
    moreover have "subseq (sub_urls r) r" using 2 Some by simp
    ultimately have "subseq (sub_urls r) (c # cs)" by (rule subseq_order.trans [rotated])
    with Some show ?thesis by simp
  qed
qed

lemma subseq_sub_special: "subseq (sub_special s) s"
  by (simp add: sub_special_def)


subsection \<open>Characters\<close>

lemma isspace_space [simp]: "isspace (CHR '' '')"
  by (simp add: isspace_def)

lemma isspace_lower_char [simp]: "isspace (lower_char c) = isspace c"
  by (auto simp: isspace_def lower_char_def Let_def)

lemma lower_char_idem [simp]: "lower_char (lower_char c) = lower_char c"
  by (auto simp: lower_char_def Let_def)

lemma wcount_str_lower: "wcount b (str_lower s) = wcount b s"
  by (induction s arbitrary: b) (auto simp: str_lower_def)

subsection \<open>Words\<close>

lemma str_split_all_words: "\<forall>w\<in>set (str_split s). is_word w"
proof (induction s rule: length_induct)
  case (1 s)
  show ?case
  proof (cases s)
    case Nil
    then show ?thesis by simp
  next
    case (Cons c cs)
    show ?thesis
    proof (cases "isspace c")
      case True
      with Cons 1 show ?thesis by auto
    next
      case False
      have "length (dropWhile (\<lambda>x. \<not> isspace x) cs) < length s"
        using Cons by (simp add: le_imp_less_Suc length_dropWhile_le)
      with 1 have "\<forall>w\<in>set (str_split (dropWhile (\<lambda>x. \<not> isspace x) cs)). is_word w"
        by blast
      moreover have "is_word (c # takeWhile (\<lambda>x. \<not> isspace x) cs)"
        using False by (auto simp: is_word_def dest: set_takeWhileD)
      ultimately show ?thesis using False Cons
        by (simp add: str_split_nonspace)
    qed
  qed
qed

lemma str_split_words: "w \<in> set (str_split s) \<Longrightarrow> is_word w"
  using str_split_all_words by blast

lemma str_split_word_append:
  "is_word w \<Longrightarrow> isspace c \<Longrightarrow> str_split (w @ c # r) = w # str_split r"
proof -
  assume w: "is_word w" and c: "isspace c"
  then obtain a as where was: "w = a # as" by (cases w) (auto simp: is_word_def)
  have a: "\<not> isspace a" and as: "\<forall>x\<in>set as. \<not> isspace x" using w was by (auto simp: is_word_def)
  have "takeWhile (\<lambda>x. \<not> isspace x) (as @ c # r) = as"
    using as c by (simp add: takeWhile_append2)
  moreover have "dropWhile (\<lambda>x. \<not> isspace x) (as @ c # r) = c # r"
    using as c by (simp add: dropWhile_append2)
  ultimately show ?thesis using a c was by (simp add: str_split_nonspace)
qed

lemma str_split_word: "is_word w \<Longrightarrow> str_split w = [w]"
proof -
  assume w: "is_word w"
  then obtain a as where was: "w = a # as" by (cases w) (auto simp: is_word_def)
  have a: "\<not> isspace a" and as: "\<forall>x\<in>set as. \<not> isspace x" using w was by (auto simp: is_word_def)
  have t: "takeWhile (\<lambda>x. \<not> isspace x) as = as" using as by simp
  have d: "dropWhile (\<lambda>x. \<not> isspace x) as = []" using as by simp
  show ?thesis unfolding was using a by (simp add: str_split_nonspace t d)
qed

lemma str_split_join: "\<forall>w\<in>set ws. is_word w \<Longrightarrow> str_split (str_join ws) = ws"
  by (induction ws rule: str_join.induct) (simp_all add: str_split_word str_split_word_append)

lemma str_split_join_split [simp]: "str_split (str_join (str_split s)) = str_split s"
  by (simp add: str_split_join str_split_words)

lemma str_split_join_take [simp]:
  "str_split (str_join (take n (str_split s))) = take n (str_split s)"
  by (rule str_split_join) (auto dest: in_set_takeD str_split_words)

subsection \<open>Whitespace collapsing and stripping\<close>

lemma str_split_dropWhile: "str_split (dropWhile isspace s) = str_split s"
  by (induction s) auto

lemma sub_spaces_word_append:
  "\<forall>x\<in>set w. \<not> isspace x \<Longrightarrow> sub_spaces (w @ r) = w @ sub_spaces r"
  by (induction w) auto

lemma sub_spaces_head: "s = [] \<or> \<not> isspace (hd s) \<Longrightarrow> dropWhile isspace (sub_spaces s) = sub_spaces s"
  by (cases s) auto

lemma dropWhile_head: "dropWhile P s = [] \<or> \<not> P (hd (dropWhile P s))"
  by (metis hd_dropWhile)

lemma dropWhile_sub_spaces: "dropWhile isspace (sub_spaces s) = sub_spaces (dropWhile isspace s)"
proof (cases s)
  case Nil
  then show ?thesis by simp
next
  case (Cons c cs)
  show ?thesis
  proof (cases "isspace c")
    case True
    then show ?thesis
      using Cons sub_spaces_head [OF dropWhile_head [of isspace cs]] by simp
  next
    case False
    with Cons show ?thesis by simp
  qed
qed

lemma rstrip_Nil_iff: "rev (dropWhile isspace (rev u)) = [] \<longleftrightarrow> (\<forall>x\<in>set u. isspace x)"
  by (simp add: dropWhile_eq_Nil_conv)

lemma rstrip_space_Cons:
  "isspace c \<Longrightarrow>
   rev (dropWhile isspace (rev (c # u))) =
     (if \<forall>x\<in>set u. isspace x then [] else c # rev (dropWhile isspace (rev u)))"
  by (simp add: dropWhile_append)

lemma rstrip_word_append:
  "is_word w \<Longrightarrow>
   rev (dropWhile isspace (rev (w @ u))) = w @ rev (dropWhile isspace (rev u))"
proof -
  assume w: "is_word w"
  then have "rev w \<noteq> []" and "\<not> isspace (hd (rev w))"
    by (auto simp: is_word_def hd_rev)
  then have "dropWhile isspace (rev w) = rev w" by (cases "rev w") auto
  then show ?thesis by (simp add: dropWhile_append dropWhile_eq_Nil_conv)
qed

lemma str_join_Cons: "str_join (w # ws) = (if ws = [] then w else w @ CHR '' '' # str_join ws)"
  by (cases ws) auto

lemma str_join_Nil_iff: "\<forall>w\<in>set ws. is_word w \<Longrightarrow> str_join ws = [] \<longleftrightarrow> ws = []"
  by (cases ws) (auto simp: str_join_Cons is_word_def)

lemma rstrip_sub_spaces:
  "s = [] \<or> \<not> isspace (hd s) \<Longrightarrow>
   rev (dropWhile isspace (rev (sub_spaces s))) = str_join (str_split s)"
proof (induction s rule: length_induct)
  case (1 s)
  show ?case
  proof (cases s)
    case Nil
    then show ?thesis by simp
  next
    case (Cons c cs)
    define w where "w = c # takeWhile (\<lambda>x. \<not> isspace x) cs"
    define r where "r = dropWhile (\<lambda>x. \<not> isspace x) cs"
    define r' where "r' = dropWhile isspace r"
    define J where "J = str_join (str_split r')"
    have c: "\<not> isspace c" using 1(2) Cons by simp
    have s: "s = w @ r" by (simp add: Cons w_def r_def)
    have w: "is_word w" using c by (auto simp: w_def is_word_def dest: set_takeWhileD)
    have wns: "\<forall>x\<in>set w. \<not> isspace x" using w by (simp add: is_word_def)
    have split_s: "str_split s = w # str_split r'"
      using c by (simp add: Cons str_split_nonspace w_def r_def r'_def str_split_dropWhile)
    have "length r' < length s"
      using length_dropWhile_le [of isspace r] length_dropWhile_le [of "\<lambda>x. \<not> isspace x" cs]
      by (simp add: r'_def r_def Cons)
    moreover have "r' = [] \<or> \<not> isspace (hd r')"
      unfolding r'_def by (rule dropWhile_head)
    ultimately have IH: "rev (dropWhile isspace (rev (sub_spaces r'))) = J"
      using 1(1) by (cases "r' = []") (auto simp: J_def)
    have Jnil: "J = [] \<longleftrightarrow> str_split r' = []"
      unfolding J_def by (rule str_join_Nil_iff) (rule str_split_all_words)
    have lhs: "rev (dropWhile isspace (rev (sub_spaces s)))
        = w @ rev (dropWhile isspace (rev (sub_spaces r)))"
      by (simp only: s sub_spaces_word_append [OF wns] rstrip_word_append [OF w])
    have tail: "rev (dropWhile isspace (rev (sub_spaces r))) = (if J = [] then [] else CHR '' '' # J)"
    proof (cases r)
      case Nil
      then show ?thesis by (simp add: J_def r'_def)
    next
      case (Cons d ds)
      have d: "isspace d" using Cons dropWhile_head [of "\<lambda>x. \<not> isspace x" cs]
        by (simp add: r_def)
      have r'ds: "r' = dropWhile isspace ds" using d Cons by (simp add: r'_def)
      have "sub_spaces r = CHR '' '' # sub_spaces r'" using d Cons r'ds by simp
      then show ?thesis
        using IH rstrip_Nil_iff [of "sub_spaces r'"]
        by (simp add: rstrip_space_Cons del: rev.simps)
    qed
    show ?thesis
      by (simp only: lhs tail split_s str_join_Cons Jnil J_def [symmetric]) simp
  qed
qed

lemma str_strip_sub_spaces: "str_strip (sub_spaces s) = str_join (str_split s)"
  using rstrip_sub_spaces [OF dropWhile_head [of isspace s]]
  by (simp add: str_strip_def dropWhile_sub_spaces str_split_dropWhile)

subsection \<open>\<open>preprocess_text\<close>\<close>

lemma preprocess_text_eq:
  "preprocess_text x = str_join (str_split (sub_special (sub_urls (sub_html (str_lower x)))))"
  by (simp add: preprocess_text_def str_strip_sub_spaces)

lemma str_split_preprocess_text:
  "str_split (preprocess_text x) = str_split (sub_special (sub_urls (sub_html (str_lower x))))"
  by (simp add: preprocess_text_eq)

lemma word_count_preprocess_text:
  "length (str_split (preprocess_text x)) \<le> length (str_split x)"
proof -
  have "subseq (sub_special (sub_urls (sub_html (str_lower x)))) (str_lower x)"
    using subseq_sub_special subseq_sub_urls subseq_sub_html
    by (blast intro: subseq_order.trans)
  then have "length (str_split (preprocess_text x)) \<le> length (str_split (str_lower x))"
    by (simp add: str_split_preprocess_text word_count_subseq)
  then show ?thesis by (simp add: length_str_split wcount_str_lower)
qed

lemma set_str_split: "w \<in> set (str_split s) \<Longrightarrow> set w \<subseteq> set s"
proof (induction s arbitrary: w rule: length_induct)
  case (1 s)
  show ?case
  proof (cases s)
    case Nil
    with 1 show ?thesis by simp
  next
    case (Cons c cs)
    show ?thesis
    proof (cases "isspace c")
      case True
      with Cons 1 show ?thesis by auto
    next
      case False
      have "length (dropWhile (\<lambda>x. \<not> isspace x) cs) < length s"
        using Cons by (simp add: le_imp_less_Suc length_dropWhile_le)
      with 1 have "\<And>v. v \<in> set (str_split (dropWhile (\<lambda>x. \<not> isspace x) cs))
          \<Longrightarrow> set v \<subseteq> set (dropWhile (\<lambda>x. \<not> isspace x) cs)"
        by blast
      then show ?thesis using 1(2) False Cons
        by (auto simp: str_split_nonspace dest: set_takeWhileD set_dropWhileD)
    qed
  qed
qed

lemma set_str_join: "c \<in> set (str_join ws) \<Longrightarrow> c = CHR '' '' \<or> (\<exists>w\<in>set ws. c \<in> set w)"
  by (induction ws rule: str_join.induct) auto

lemma subseq_set: "subseq xs ys \<Longrightarrow> set xs \<subseteq> set ys"
  by (induction rule: list_emb.induct) auto

lemma preprocess_text_chars:
  assumes "c \<in> set (preprocess_text x)"
  shows "c = CHR '' '' \<or> (kept_char c \<and> \<not> isspace c \<and> lower_char c = c)"
proof -
  let ?t = "sub_special (sub_urls (sub_html (str_lower x)))"
  from assms have "c = CHR '' '' \<or> (\<exists>w\<in>set (str_split ?t). c \<in> set w)"
    by (simp add: preprocess_text_eq set_str_join)
  then show ?thesis
  proof
    assume "c = CHR '' ''" then show ?thesis ..
  next
    assume "\<exists>w\<in>set (str_split ?t). c \<in> set w"
    then obtain w where w: "w \<in> set (str_split ?t)" and cw: "c \<in> set w" by blast
    have ns: "\<not> isspace c" using str_split_words [OF w] cw by (simp add: is_word_def)
    have ct: "c \<in> set ?t" using set_str_split [OF w] cw by blast
    then have k: "kept_char c" by (simp add: sub_special_def)
    have "subseq (sub_urls (sub_html (str_lower x))) (str_lower x)"
      using subseq_sub_urls subseq_sub_html by (blast intro: subseq_order.trans)
    then have "set (sub_urls (sub_html (str_lower x))) \<subseteq> set (str_lower x)"
      by (rule subseq_set)
    with ct have "c \<in> set (str_lower x)" by (auto simp: sub_special_def)
    then have "lower_char c = c" by (auto simp: str_lower_def)
    with ns k show ?thesis by simp
  qed
qed

lemma sub_html_id: "CHR ''<'' \<notin> set s \<Longrightarrow> sub_html s = s"
  by (induction s) auto

lemma kept_char_lt: "\<not> kept_char (CHR ''<'')"
  by (simp add: kept_char_def word_char_def isalnum_def isspace_def)

subsection \<open>Example texts\<close>

lemma str_split_all_space: "\<forall>c\<in>set s. isspace c \<Longrightarrow> str_split s = []"
  by (induction s) auto

lemma str_split_repeated: "\<not> isspace c \<Longrightarrow> str_split (repeated n c) = replicate n [c]"
  by (induction n) (simp_all add: repeated_def str_split_nonspace)

lemma set_repeated: "set (repeated n c) \<subseteq> {c, CHR '' ''}"
  by (auto simp: repeated_def)

lemma not_isspace_a: "\<not> isspace (CHR ''a'')"
  by (simp add: isspace_def)

lemma not_isspace_hash: "\<not> isspace (CHR ''#'')"
  by (simp add: isspace_def)

lemma preprocess_text_hashes: "preprocess_text (repeated n (CHR ''#'')) = []"
proof -
  let ?T = "repeated n (CHR ''#'')"
  let ?u = "sub_urls (sub_html (str_lower ?T))"
  have "subseq ?u (str_lower ?T)"
    using subseq_sub_urls subseq_sub_html by (blast intro: subseq_order.trans)
  then have "set ?u \<subseteq> set (str_lower ?T)" by (rule subseq_set)
  moreover have "set (str_lower ?T) \<subseteq> {CHR ''#'', CHR '' ''}"
    using set_repeated [of n "CHR ''#''"] by (auto simp: str_lower_def lower_char_def)
  ultimately have "set ?u \<subseteq> {CHR ''#'', CHR '' ''}" by blast
  moreover have "\<not> kept_char (CHR ''#'')"
    by (simp add: kept_char_def word_char_def isalnum_def isspace_def)
  ultimately have "\<forall>c\<in>set (sub_special ?u). isspace c"
    by (auto simp: sub_special_def)
  then have "str_split (sub_special ?u) = []" by (rule str_split_all_space)
  then show ?thesis by (simp add: preprocess_text_eq)
qed

subsection \<open>The analyzer\<close>

lemma word_count_pipeline_input: "length (str_split (pipeline_input text)) \<le> 250"
  by (simp add: pipeline_input_def Let_def)

lemma pipeline_input_short: "length (str_split text) \<le> 250 \<Longrightarrow> pipeline_input text = text"
  by (simp add: pipeline_input_def Let_def)

lemma snd_analyze: "snd (analyze P text trace) = trace @ [(text, pipeline_input text)]"
  by (simp add: analyze_def Let_def split: sum.splits prod.splits)

lemma analyze_Inl:
  "P (pipeline_input text) = Inl e \<Longrightarrow> analyze P text trace = (Inl e, trace @ [(text, pipeline_input text)])"
  by (simp add: analyze_def Let_def)

lemma analyze_Inr:
  "P (pipeline_input text) = Inr (label, score) \<Longrightarrow>
   \<exists>a. analyze P text trace = (Inr a, trace @ [(text, pipeline_input text)])"
  by (simp add: analyze_def Let_def)

section \<open>The claims on normalisation\<close>

text \<open>
  Claim C4 as stated: normalisation is idempotent. It fails: the special-character step
  joins \<open>ww\<close> and \<open>w.a\<close> into \<open>www.a\<close>, which a second pass removes as a URL.
\<close>

theorem C4_idempotence_counterexample:
  "preprocess_text (preprocess_text ''ww#w.a'') \<noteq> preprocess_text ''ww#w.a''"
  by code_simp

text \<open>
  Claim C4, amended: for every text \<open>x\<close> such that the URL pattern finds nothing in
  \<open>preprocess_text x\<close>, normalising \<open>preprocess_text x\<close> again leaves it unchanged.
\<close>

theorem C4_idempotence_without_url:
  assumes "sub_urls (preprocess_text x) = preprocess_text x"
  shows "preprocess_text (preprocess_text x) = preprocess_text x"
proof -
  let ?y = "preprocess_text x"
  have chars: "\<And>c. c \<in> set ?y \<Longrightarrow> c = CHR '' '' \<or> (kept_char c \<and> \<not> isspace c \<and> lower_char c = c)"
    by (rule preprocess_text_chars)
  have lower_space: "lower_char (CHR '' '') = CHR '' ''" by (simp add: lower_char_def)
  have "\<And>c. c \<in> set ?y \<Longrightarrow> lower_char c = c"
    using chars lower_space by metis
  then have lower: "str_lower ?y = ?y" unfolding str_lower_def by (rule map_idI)
  have "CHR ''<'' \<notin> set ?y" using chars kept_char_lt by auto
  then have html: "sub_html ?y = ?y" by (rule sub_html_id)
  have kept_space: "kept_char (CHR '' '')" by (simp add: kept_char_def)
  have "\<forall>c\<in>set ?y. kept_char c"
    using chars kept_space by metis
  then have special: "sub_special ?y = ?y" unfolding sub_special_def by simp
  have "preprocess_text ?y = str_join (str_split ?y)"
    by (simp only: preprocess_text_eq [of ?y] lower html assms special)
  also have "\<dots> = ?y" by (simp add: preprocess_text_eq [of x])
  finally show ?thesis .
qed


text \<open>The amended claim C4 at a review with a tag, a URL and extra spaces.\<close>

theorem C4_idempotence_without_url_witness:
  "sub_urls (preprocess_text ''Great <b>PRODUCT</b>,  see https://x.y/z !'')
     = preprocess_text ''Great <b>PRODUCT</b>,  see https://x.y/z !''
   \<and> preprocess_text (preprocess_text ''Great <b>PRODUCT</b>,  see https://x.y/z !'')
     = preprocess_text ''Great <b>PRODUCT</b>,  see https://x.y/z !''"
proof -
  have h: "sub_urls (preprocess_text ''Great <b>PRODUCT</b>,  see https://x.y/z !'')
     = preprocess_text ''Great <b>PRODUCT</b>,  see https://x.y/z !''"
    by code_simp
  show ?thesis using h C4_idempotence_without_url [OF h] by (rule conjI)
qed

text \<open>
  Claim C5 as stated: the output contains only alphanumeric characters, whitespace and the
  punctuation \<open>. , ! ?\<close>. It fails: the class \<open>\w\<close> keeps the underscore.
\<close>

theorem C5_underscore_counterexample:
  "CHR ''_'' \<in> set (preprocess_text ''a_b'')
   \<and> \<not> isalnum (CHR ''_'') \<and> \<not> isspace (CHR ''_'') \<and> CHR ''_'' \<notin> set ''.,!?''"
  by code_simp

text \<open>
  Claim C5, amended: every character of the output of \<open>preprocess_text\<close> is alphanumeric,
  an underscore, the space character, or one of \<open>. , ! ?\<close>.
\<close>

theorem C5_output_characters:
  assumes "c \<in> set (preprocess_text x)"
  shows "isalnum c \<or> c = CHR ''_'' \<or> c = CHR '' '' \<or> c \<in> set ''.,!?''"
  using preprocess_text_chars [OF assms] unfolding kept_char_def word_char_def by blast

text \<open>The amended claim C5 at a text with an underscore and a removed character.\<close>

theorem C5_output_characters_witness:
  "CHR ''_'' \<in> set (preprocess_text ''a_b #1'')
   \<and> (isalnum (CHR ''_'') \<or> CHR ''_'' = CHR ''_'' \<or> CHR ''_'' = CHR '' ''
        \<or> CHR ''_'' \<in> set ''.,!?'')"
proof -
  have h: "CHR ''_'' \<in> set (preprocess_text ''a_b #1'')" by code_simp
  show ?thesis using h C5_output_characters [OF h] by (rule conjI)
qed

section \<open>The claims on the score mapping\<close>

text \<open>
  Claim C6: for every classifier result with label \<open>label\<close> and score \<open>s\<close>, the analysis has
  the sentiment of the label and confidence \<open>s\<close>, its detailed scores have the two keys
  POSITIVE and NEGATIVE, the winning label receives \<open>s\<close> and the other label \<open>1 - s\<close>, and
  the two add up to 1 (for every real \<open>s\<close>, so in particular for \<open>s\<close> in \<open>[0,1]\<close>).
\<close>

theorem C6_detailed_scores_sum:
  assumes "P (pipeline_input text) = Inr (label, s)"
  shows "\<exists>a. fst (analyze P text trace) = Inr a
     \<and> sentiment a = (if label = ''POSITIVE'' then ''positive'' else ''negative'')
     \<and> confidence a = s
     \<and> map fst (detailed_scores a) = [''POSITIVE'', ''NEGATIVE'']
     \<and> map_of (detailed_scores a) ''POSITIVE'' = Some (if label = ''POSITIVE'' then s else 1 - s)
     \<and> map_of (detailed_scores a) ''NEGATIVE'' = Some (if label = ''POSITIVE'' then 1 - s else s)
     \<and> the (map_of (detailed_scores a) ''POSITIVE'') + the (map_of (detailed_scores a) ''NEGATIVE'') = 1"
  using assms by (simp add: analyze_def Let_def)

text \<open>
  Claim C6 at a negative result of score 9/10: NEGATIVE receives 9/10 and POSITIVE 1/10.
\<close>

theorem C6_detailed_scores_sum_witness:
  "const_pipeline ''NEGATIVE'' (9/10) (pipeline_input ''bad'') = Inr (''NEGATIVE'', 9/10)
   \<and> (\<exists>a. fst (analyze (const_pipeline ''NEGATIVE'' (9/10)) ''bad'' []) = Inr a
     \<and> sentiment a = ''negative''
     \<and> confidence a = 9/10
     \<and> map_of (detailed_scores a) ''POSITIVE'' = Some (1/10)
     \<and> map_of (detailed_scores a) ''NEGATIVE'' = Some (9/10)
     \<and> the (map_of (detailed_scores a) ''POSITIVE'')
         + the (map_of (detailed_scores a) ''NEGATIVE'') = 1)"
proof -
  have h: "const_pipeline ''NEGATIVE'' (9/10) (pipeline_input ''bad'') = Inr (''NEGATIVE'', 9/10)"
    by (simp add: const_pipeline_def)
  from C6_detailed_scores_sum [of "const_pipeline ''NEGATIVE'' (9/10)" "''bad''"
        "''NEGATIVE''" "9/10" "[]", OF h]
  obtain a where a: "fst (analyze (const_pipeline ''NEGATIVE'' (9/10)) ''bad'' []) = Inr a"
    and s: "sentiment a = (if ''NEGATIVE'' = ''POSITIVE'' then ''positive'' else ''negative'')"
    and c: "confidence a = 9/10"
    and p: "map_of (detailed_scores a) ''POSITIVE''
        = Some (if ''NEGATIVE'' = ''POSITIVE'' then 9/10 else 1 - 9/10)"
    and n: "map_of (detailed_scores a) ''NEGATIVE''
        = Some (if ''NEGATIVE'' = ''POSITIVE'' then 1 - 9/10 else 9/10)"
    and t: "the (map_of (detailed_scores a) ''POSITIVE'')
         + the (map_of (detailed_scores a) ''NEGATIVE'') = 1"
    by blast
  from s have s': "sentiment a = ''negative''" by simp
  from p have p': "map_of (detailed_scores a) ''POSITIVE'' = Some (1/10)" by simp
  from n have n': "map_of (detailed_scores a) ''NEGATIVE'' = Some (9/10)" by simp
  from h a s' c p' n' t show ?thesis by blast
qed

text \<open>
  Claim C7 as stated: for every score in \<open>[0,1]\<close>, a positive sentiment has a normalised score
  above 0. It fails at score 0, where the normalised score is 0.
\<close>

theorem C7_zero_score_counterexample:
  "fst (analyze (const_pipeline ''POSITIVE'' 0) ''ok'' [])
     = Inr \<lparr>sentiment = ''positive'', confidence = 0, normalized_score = 0,
            detailed_scores = [(''POSITIVE'', 0), (''NEGATIVE'', 1)]\<rparr>"
  by (simp add: analyze_def const_pipeline_def Let_def)

text \<open>
  Claim C7, amended: for every classifier result with score \<open>s > 0\<close> (so for \<open>s\<close> in \<open>(0,1]\<close>),
  the sentiment is positive or negative, a positive sentiment has a normalised score above
  0 and a negative sentiment has a normalised score below 0.
\<close>

theorem C7_sign_matches_sentiment:
  assumes "P (pipeline_input text) = Inr (label, s)" and "0 < s"
  shows "\<exists>a. fst (analyze P text trace) = Inr a
     \<and> (sentiment a = ''positive'' \<or> sentiment a = ''negative'')
     \<and> (sentiment a = ''positive'' \<longrightarrow> 0 < normalized_score a)
     \<and> (sentiment a = ''negative'' \<longrightarrow> normalized_score a < 0)"
  using assms by (simp add: analyze_def Let_def)

text \<open>The amended claim C7 at a negative result of score 1/2.\<close>

theorem C7_sign_matches_sentiment_witness:
  "const_pipeline ''NEGATIVE'' (1/2) (pipeline_input ''bad'') = Inr (''NEGATIVE'', 1/2)
   \<and> (0::real) < 1/2
   \<and> (\<exists>a. fst (analyze (const_pipeline ''NEGATIVE'' (1/2)) ''bad'' []) = Inr a
     \<and> (sentiment a = ''positive'' \<or> sentiment a = ''negative'')
     \<and> (sentiment a = ''positive'' \<longrightarrow> 0 < normalized_score a)
     \<and> (sentiment a = ''negative'' \<longrightarrow> normalized_score a < 0))"
proof -
  have h: "const_pipeline ''NEGATIVE'' (1/2) (pipeline_input ''bad'') = Inr (''NEGATIVE'', 1/2)"
    by (simp add: const_pipeline_def)
  have p: "(0::real) < 1/2" by simp
  show ?thesis
    using h p C7_sign_matches_sentiment [of "const_pipeline ''NEGATIVE'' (1/2)" "''bad''"
        "''NEGATIVE''" "1/2" "[]"]
    by blast
qed

section \<open>The claims on the endpoints\<close>

lemma batch_item_request:
  "batch_item P request review trace = batch_item P request' review trace"
  by (simp add: batch_item_def hasattr_truncate_def)

lemma batch_loop_request:
  "batch_loop P request rs collected trace = batch_loop P request' rs collected trace"
proof (induction rs arbitrary: collected trace)
  case Nil
  show ?case by simp
next
  case (Cons r rs)
  show ?case
    by (simp add: batch_item_request [of P request r trace request'] Cons.IH
        split: prod.splits sum.splits)
qed

text \<open>
  Claim C10: the outcome of a batch request does not depend on the global truncate flag:
  changing it to any value changes neither the response nor the calls to the classifier.
\<close>

theorem C10_global_flag_ignored:
  "analyze_batch P (request\<lparr>BatchReviewRequest.truncate_flag := g\<rparr>) trace
     = analyze_batch P request trace"
  using batch_loop_request [of P "request\<lparr>BatchReviewRequest.truncate_flag := g\<rparr>"
      "reviews request" "[]" trace request]
  by (simp add: analyze_batch_def)

subsection \<open>The calls to the classifier\<close>

lemma analyze_pair: "\<exists>r. analyze P x trace = (r, trace @ [(x, pipeline_input x)])"
  by (simp add: analyze_def Let_def split: sum.splits prod.splits)

lemma snd_analyze_sentiment:
  "snd (analyze_sentiment P review trace) = trace
   \<or> (\<exists>x. snd (analyze_sentiment P review trace) = trace @ [(x, pipeline_input x)])"
proof -
  let ?long = "250 < length (str_split (review_text review))"
  let ?x = "if ?long \<and> ReviewRequest.truncate_flag review
            then str_join (take 500 (str_split (preprocess_text (review_text review))))
            else preprocess_text (review_text review)"
  obtain r where r: "analyze P ?x trace = (r, trace @ [(?x, pipeline_input ?x)])"
    using analyze_pair by blast
  show ?thesis
  proof (cases "?long \<and> \<not> ReviewRequest.truncate_flag review")
    case True
    then show ?thesis by (simp add: analyze_sentiment_def Let_def)
  next
    case False
    then have "snd (analyze_sentiment P review trace) = trace @ [(?x, pipeline_input ?x)]"
      using r by (cases r) (simp_all add: analyze_sentiment_def Let_def del: str_split_join_take)
    then show ?thesis by blast
  qed
qed

lemma snd_batch_item:
  "snd (batch_item P request review trace) = trace
   \<or> (\<exists>x. snd (batch_item P request review trace) = trace @ [(x, pipeline_input x)])"
proof -
  let ?long = "250 < length (str_split (review_text review))"
  let ?x = "if ?long \<and> ReviewRequest.truncate_flag review
            then str_join (take 250 (str_split (preprocess_text (review_text review))))
            else preprocess_text (review_text review)"
  obtain r where r: "analyze P ?x trace = (r, trace @ [(?x, pipeline_input ?x)])"
    using analyze_pair by blast
  show ?thesis
  proof (cases "(?long \<and> \<not> ReviewRequest.truncate_flag review)
      \<or> (250 < length (str_split ?x) \<and> \<not> ReviewRequest.truncate_flag review)")
    case True
    then show ?thesis
      by (auto simp add: batch_item_def hasattr_truncate_def Let_def simp del: str_split_join_take)
  next
    case False
    then have "snd (batch_item P request review trace) = trace @ [(?x, pipeline_input ?x)]"
      using r by (cases r)
        (auto simp add: batch_item_def hasattr_truncate_def Let_def
          simp del: str_split_join_take split: if_splits)
    then show ?thesis by blast
  qed
qed

lemma trace_batch_loop:
  "snd ` set (snd (batch_loop P request rs collected trace))
     \<subseteq> snd ` set trace \<union> {t. length (str_split t) \<le> 250}"
proof (induction rs arbitrary: collected trace)
  case Nil
  show ?case by simp
next
  case (Cons r rs)
  obtain out tr where item: "batch_item P request r trace = (out, tr)"
    by (cases "batch_item P request r trace")
  have "tr = trace \<or> (\<exists>x. tr = trace @ [(x, pipeline_input x)])"
    using snd_batch_item [of P request r trace] item by simp
  then have tr: "snd ` set tr \<subseteq> snd ` set trace \<union> {t. length (str_split t) \<le> 250}"
    using word_count_pipeline_input by (auto simp: image_iff) force
  show ?case
  proof (cases out)
    case (Inl e)
    with item tr show ?thesis by simp
  next
    case (Inr resp)
    have "snd ` set (snd (batch_loop P request rs (collected @ [resp]) tr))
        \<subseteq> snd ` set tr \<union> {t. length (str_split t) \<le> 250}"
      by (rule Cons.IH)
    with tr have "snd ` set (snd (batch_loop P request rs (collected @ [resp]) tr))
        \<subseteq> snd ` set trace \<union> {t. length (str_split t) \<le> 250}"
      by blast
    with item Inr show ?thesis by simp
  qed
qed

lemma snd_analyze_sentiment_truncating:
  assumes "250 < length (str_split (review_text review))"
    and "ReviewRequest.truncate_flag review"
  shows "snd (analyze_sentiment P review trace)
     = trace @ [(str_join (take 500 (str_split (preprocess_text (review_text review)))),
         pipeline_input
           (str_join (take 500 (str_split (preprocess_text (review_text review))))))]"
proof -
  let ?x = "str_join (take 500 (str_split (preprocess_text (review_text review))))"
  obtain r where r: "analyze P ?x trace = (r, trace @ [(?x, pipeline_input ?x)])"
    using analyze_pair by blast
  show ?thesis
    using r assms by (cases r) (simp_all add: analyze_sentiment_def Let_def del: str_split_join_take)
qed

text \<open>
  Claim C9: on either endpoint and for any truncate flag, every text submitted to the
  sentiment pipeline (the second component of an entry of the trace) has at most 250
  whitespace-separated words.
\<close>

theorem C9_pipeline_input_at_most_250_words:
  assumes "t \<in> snd ` set (snd (analyze_sentiment P review []))
         \<or> t \<in> snd ` set (snd (analyze_batch P request []))"
  shows "length (str_split t) \<le> 250"
proof -
  have "snd (analyze_sentiment P review []) = []
      \<or> (\<exists>x. snd (analyze_sentiment P review []) = [] @ [(x, pipeline_input x)])"
    by (rule snd_analyze_sentiment)
  then have single: "snd ` set (snd (analyze_sentiment P review []))
      \<subseteq> {t. length (str_split t) \<le> 250}"
    using word_count_pipeline_input by auto
  have batch: "snd ` set (snd (analyze_batch P request []))
      \<subseteq> {t. length (str_split t) \<le> 250}"
    using trace_batch_loop [of P request "reviews request" "[]" "[]"]
    by (simp add: analyze_batch_def)
  from assms single batch show ?thesis by blast
qed


text \<open>
  Claim C9 on the single-item endpoint at a review of 600 words with truncation enabled:
  the text submitted is the one left by the 500-word cut of the endpoint and the 250-word
  cut of the analyzer.
\<close>

theorem C9_pipeline_input_at_most_250_words_witness:
  "(pipeline_input (str_join (take 500 (str_split (preprocess_text (repeated 600 (CHR ''a''))))))
      \<in> snd ` set (snd (analyze_sentiment (const_pipeline ''POSITIVE'' 1)
           \<lparr>review_text = repeated 600 (CHR ''a''), review_id = None, source = None,
            truncate_flag = True\<rparr> [])))
   \<and> length (str_split
        (pipeline_input
          (str_join (take 500 (str_split (preprocess_text (repeated 600 (CHR ''a''))))))))
       \<le> 250"
proof -
  let ?review = "\<lparr>review_text = repeated 600 (CHR ''a''), review_id = None, source = None,
            truncate_flag = True\<rparr>"
  let ?t = "pipeline_input
      (str_join (take 500 (str_split (preprocess_text (repeated 600 (CHR ''a''))))))"
  have long: "250 < length (str_split (review_text ?review))"
    by (simp add: str_split_repeated not_isspace_a)
  have flag: "ReviewRequest.truncate_flag ?review" by simp
  have "snd (analyze_sentiment (const_pipeline ''POSITIVE'' 1) ?review [])
      = [] @ [(str_join (take 500 (str_split (preprocess_text (repeated 600 (CHR ''a''))))), ?t)]"
    using snd_analyze_sentiment_truncating [OF long flag, of "const_pipeline ''POSITIVE'' 1" "[]"]
    by (simp del: str_split_join_take)
  then have h: "?t \<in> snd ` set (snd (analyze_sentiment (const_pipeline ''POSITIVE'' 1)
      ?review []))"
    by (simp del: str_split_join_take)
  show ?thesis
    using h C9_pipeline_input_at_most_250_words [of ?t "const_pipeline ''POSITIVE'' 1" ?review]
    by blast
qed

subsection \<open>The second length check of the batch endpoint\<close>

lemma batch_item_not_recheck:
  "fst (batch_item P request review trace)
     \<noteq> Inl \<lparr>status_code = 400,
             detail = ''Text is too long after preprocessing and truncation is disabled''\<rparr>"
proof -
  let ?long = "250 < length (str_split (review_text review))"
  let ?x = "if ?long \<and> ReviewRequest.truncate_flag review
            then str_join (take 250 (str_split (preprocess_text (review_text review))))
            else preprocess_text (review_text review)"
  obtain r where r: "analyze P ?x trace = (r, trace @ [(?x, pipeline_input ?x)])"
    using analyze_pair by blast
  have short: "\<not> ?long \<Longrightarrow> \<not> 250 < length (str_split (preprocess_text (review_text review)))"
    using word_count_preprocess_text [of "review_text review"] by simp
  show ?thesis
    using r short by (cases r)
      (auto simp add: batch_item_def hasattr_truncate_def Let_def
        simp del: str_split_join_take split: if_splits)
qed

lemma batch_loop_not_recheck:
  "fst (batch_loop P request rs collected trace)
     \<noteq> Inl \<lparr>status_code = 400,
             detail = ''Text is too long after preprocessing and truncation is disabled''\<rparr>"
proof (induction rs arbitrary: collected trace)
  case Nil
  show ?case by simp
next
  case (Cons r rs)
  obtain out tr where item: "batch_item P request r trace = (out, tr)"
    by (cases "batch_item P request r trace")
  show ?case
  proof (cases out)
    case (Inl e)
    with item batch_item_not_recheck [of P request r trace] show ?thesis by simp
  next
    case (Inr resp)
    with item Cons.IH [of "collected @ [resp]" tr] show ?thesis by simp
  qed
qed

text \<open>
  Claim C8: \<open>preprocess_text\<close> never increases the number of whitespace-separated words, and
  the batch endpoint never raises the error of its second length check ("too long after
  preprocessing").
\<close>

theorem C8_recheck_unreachable:
  "length (str_split (preprocess_text x)) \<le> length (str_split x)
   \<and> fst (analyze_batch P request trace)
       \<noteq> Inl \<lparr>status_code = 400,
               detail = ''Text is too long after preprocessing and truncation is disabled''\<rparr>"
  using word_count_preprocess_text [of x]
    batch_loop_not_recheck [of P request "reviews request" "[]" trace]
  by (simp add: analyze_batch_def)

subsection \<open>Short texts\<close>

lemma pipeline_input_preprocess_text:
  "length (str_split x) \<le> 250 \<Longrightarrow> pipeline_input (preprocess_text x) = preprocess_text x"
  using word_count_preprocess_text [of x] by (simp add: pipeline_input_short)

text \<open>
  Claim C3 as stated, with the word count taken on the normalised text: a text of at most
  250 normalised words is answered with \<open>truncated = false\<close>. It fails: 251 words that
  normalisation deletes altogether leave no word, and the response says \<open>truncated = true\<close>.
\<close>

theorem C3_normalised_count_counterexample:
  "length (str_split (preprocess_text (repeated 251 (CHR ''#'')))) \<le> 250
   \<and> fst (analyze_sentiment (const_pipeline ''POSITIVE'' 1)
        \<lparr>review_text = repeated 251 (CHR ''#''), review_id = None, source = None,
         truncate_flag = True\<rparr> [])
     = Inr \<lparr>sentiment = ''positive'', confidence = 1, normalized_score = 1,
            detailed_scores = [(''POSITIVE'', 1), (''NEGATIVE'', 0)],
            review_id = None, source = None, truncated = True\<rparr>"
  by (simp add: preprocess_text_hashes analyze_sentiment_def analyze_def pipeline_input_def
      const_pipeline_def Let_def str_split_repeated not_isspace_hash)

lemma str_join_split_preprocess_text:
  "str_join (str_split (preprocess_text x)) = preprocess_text x"
  by (simp add: preprocess_text_eq)

lemma snd_batch_item_truncating:
  assumes "250 < length (str_split (review_text review))"
    and "ReviewRequest.truncate_flag review"
  shows "snd (batch_item P request review trace)
     = trace @ [(str_join (take 250 (str_split (preprocess_text (review_text review)))),
         pipeline_input
           (str_join (take 250 (str_split (preprocess_text (review_text review))))))]"
proof -
  let ?x = "str_join (take 250 (str_split (preprocess_text (review_text review))))"
  obtain r where r: "analyze P ?x trace = (r, trace @ [(?x, pipeline_input ?x)])"
    using analyze_pair by blast
  show ?thesis
    using r assms by (cases r)
      (simp_all add: batch_item_def hasattr_truncate_def Let_def del: str_split_join_take)
qed

lemma short_text_outcome:
  assumes "length (str_split (review_text review)) \<le> 250"
  shows "snd (analyze_sentiment P review trace) = trace @ [(preprocess_text (review_text review),
                         preprocess_text (review_text review))]
     \<and> (\<forall>r. fst (analyze_sentiment P review trace) = Inr r \<longrightarrow> \<not> truncated r)
     \<and> ((\<exists>label s. P (preprocess_text (review_text review)) = Inr (label, s))
          \<longrightarrow> (\<exists>r. fst (analyze_sentiment P review trace) = Inr r))
     \<and> snd (batch_item P request review trace) = trace @ [(preprocess_text (review_text review),
                         preprocess_text (review_text review))]
     \<and> (\<forall>r. fst (batch_item P request review trace) = Inr r \<longrightarrow> \<not> truncated r)
     \<and> ((\<exists>label s. P (preprocess_text (review_text review)) = Inr (label, s))
          \<longrightarrow> (\<exists>r. fst (batch_item P request review trace) = Inr r))"
proof -
  let ?x = "preprocess_text (review_text review)"
  have px: "pipeline_input ?x = ?x"
    using assms by (rule pipeline_input_preprocess_text)
  have short: "\<not> 250 < length (str_split ?x)"
    using word_count_preprocess_text [of "review_text review"] assms by simp
  have long: "\<not> 250 < length (str_split (review_text review))" using assms by simp
  show ?thesis
  proof (cases "P ?x")
    case (Inl e)
    then have "analyze P ?x trace = (Inl e, trace @ [(?x, ?x)])"
      using analyze_Inl [of P ?x e trace] px by simp
    then show ?thesis using long short Inl
      by (simp add: analyze_sentiment_def batch_item_def hasattr_truncate_def Let_def)
  next
    case (Inr ls)
    obtain label s where ls: "ls = (label, s)" by (cases ls)
    obtain a where "analyze P ?x trace = (Inr a, trace @ [(?x, ?x)])"
      using analyze_Inr [of P ?x label s trace] Inr ls px by auto
    then show ?thesis using long short
      by (simp add: analyze_sentiment_def batch_item_def hasattr_truncate_def Let_def)
  qed
qed

lemma normalised_short_text_calls:
  assumes "length (str_split (preprocess_text (review_text review))) \<le> 250"
  shows "(snd (analyze_sentiment P review trace) = trace
          \<or> snd (analyze_sentiment P review trace)
               = trace @ [(preprocess_text (review_text review),
                         preprocess_text (review_text review))])
     \<and> (snd (batch_item P request review trace) = trace
          \<or> snd (batch_item P request review trace)
               = trace @ [(preprocess_text (review_text review),
                         preprocess_text (review_text review))])"
proof -
  let ?x = "preprocess_text (review_text review)"
  have px: "pipeline_input ?x = ?x" using assms by (rule pipeline_input_short)
  have t500: "str_join (take 500 (str_split ?x)) = ?x"
    using assms by (simp add: str_join_split_preprocess_text del: str_split_join_take)
  have t250: "str_join (take 250 (str_split ?x)) = ?x"
    using assms by (simp add: str_join_split_preprocess_text del: str_split_join_take)
  show ?thesis
  proof (cases "250 < length (str_split (review_text review))")
    case False
    then show ?thesis using short_text_outcome [of review P trace request] by simp
  next
    case long: True
    show ?thesis
    proof (cases "ReviewRequest.truncate_flag review")
      case True
      show ?thesis
        using snd_analyze_sentiment_truncating [OF long True, of P trace]
          snd_batch_item_truncating [OF long True, of P request trace]
        by (simp only: t500 t250 px) simp
    next
      case False
      then show ?thesis using long
        by (simp add: analyze_sentiment_def batch_item_def hasattr_truncate_def Let_def)
    qed
  qed
qed

text \<open>
  Claim C3, amended: for every review whose normalised text has at most 250 words, on the
  single-item endpoint and in an iteration of the batch endpoint, the classifier is called
  at most once and the text it is given is exactly the normalised text, with no truncation
  applied; when the raw text too has at most 250 words, the classifier is called, every
  response has \<open>truncated = false\<close>, and a response is returned whenever the classifier
  returns.
\<close>

theorem C3_short_text_not_truncated:
  assumes "length (str_split (preprocess_text (review_text review))) \<le> 250"
  shows "(snd (analyze_sentiment P review trace) = trace
          \<or> snd (analyze_sentiment P review trace)
               = trace @ [(preprocess_text (review_text review),
                         preprocess_text (review_text review))])
     \<and> (snd (batch_item P request review trace) = trace
          \<or> snd (batch_item P request review trace)
               = trace @ [(preprocess_text (review_text review),
                         preprocess_text (review_text review))])
     \<and> (length (str_split (review_text review)) \<le> 250 \<longrightarrow>
          snd (analyze_sentiment P review trace)
            = trace @ [(preprocess_text (review_text review),
                         preprocess_text (review_text review))]
          \<and> (\<forall>r. fst (analyze_sentiment P review trace) = Inr r \<longrightarrow> \<not> truncated r)
          \<and> ((\<exists>label s. P (preprocess_text (review_text review)) = Inr (label, s))
               \<longrightarrow> (\<exists>r. fst (analyze_sentiment P review trace) = Inr r))
          \<and> snd (batch_item P request review trace)
            = trace @ [(preprocess_text (review_text review),
                         preprocess_text (review_text review))]
          \<and> (\<forall>r. fst (batch_item P request review trace) = Inr r \<longrightarrow> \<not> truncated r)
          \<and> ((\<exists>label s. P (preprocess_text (review_text review)) = Inr (label, s))
               \<longrightarrow> (\<exists>r. fst (batch_item P request review trace) = Inr r)))"
  using normalised_short_text_calls [OF assms, of P trace request]
    short_text_outcome [of review P trace request]
  by blast

text \<open>The amended claim C3 at a short review, on a classifier that returns.\<close>

theorem C3_short_text_not_truncated_witness:
  "length (str_split (preprocess_text (review_text
       \<lparr>review_text = ''Good  VALUE!'', review_id = None, source = None,
        truncate_flag = False\<rparr>))) \<le> 250
   \<and> length (str_split (review_text
       \<lparr>review_text = ''Good  VALUE!'', review_id = None, source = None,
        truncate_flag = False\<rparr>)) \<le> 250
   \<and> snd (analyze_sentiment (const_pipeline ''POSITIVE'' 1)
        \<lparr>review_text = ''Good  VALUE!'', review_id = None, source = None,
         truncate_flag = False\<rparr> [])
       = [(''good value!'', ''good value!'')]
   \<and> (\<exists>r. fst (analyze_sentiment (const_pipeline ''POSITIVE'' 1)
        \<lparr>review_text = ''Good  VALUE!'', review_id = None, source = None,
         truncate_flag = False\<rparr> []) = Inr r \<and> \<not> truncated r)"
proof -
  let ?review = "\<lparr>review_text = ''Good  VALUE!'', review_id = None, source = None,
         truncate_flag = False\<rparr>"
  have w: "length (str_split ''Good  VALUE!'') = 2" by code_simp
  have p: "preprocess_text ''Good  VALUE!'' = ''good value!''" by code_simp
  have v: "length (str_split ''good value!'') = 2" by code_simp
  have h: "length (str_split (preprocess_text (review_text ?review))) \<le> 250"
    using p v by simp
  have raw: "length (str_split (review_text ?review)) \<le> 250" using w by simp
  have ret: "\<exists>label s. const_pipeline ''POSITIVE'' 1 (preprocess_text (review_text ?review))
      = Inr (label, s)"
    by (simp add: const_pipeline_def)
  note inst = C3_short_text_not_truncated [OF h, of "const_pipeline ''POSITIVE'' 1" "[]"]
  have a: "snd (analyze_sentiment (const_pipeline ''POSITIVE'' 1) ?review [])
      = [] @ [(preprocess_text (review_text ?review), preprocess_text (review_text ?review))]"
    using inst raw by blast
  have b: "\<forall>r. fst (analyze_sentiment (const_pipeline ''POSITIVE'' 1) ?review []) = Inr r
      \<longrightarrow> \<not> truncated r"
    using inst raw by blast
  have c: "\<exists>r. fst (analyze_sentiment (const_pipeline ''POSITIVE'' 1) ?review []) = Inr r"
    using inst raw ret by blast
  from a p have a': "snd (analyze_sentiment (const_pipeline ''POSITIVE'' 1) ?review [])
      = [(''good value!'', ''good value!'')]" by simp
  from b c have d: "\<exists>r. fst (analyze_sentiment (const_pipeline ''POSITIVE'' 1) ?review [])
      = Inr r \<and> \<not> truncated r" by blast
  from h raw a' d show ?thesis by blast
qed

subsection \<open>A long plain text\<close>







subsection \<open>The items of a returned batch\<close>



subsection \<open>Long texts with truncation disabled\<close>

lemma batch_item_rejected:
  assumes "250 < length (str_split (review_text bad))"
    and "\<not> ReviewRequest.truncate_flag bad"
  shows "batch_item P request bad trace =
     (Inl \<lparr>status_code = 400,
           detail = ''Review '' @ str_of (ReviewRequest.review_id bad) @
             '' exceeds model'' @ [CHR 0x27] @
             ''s token limit (>250 words / ~512 tokens) and truncation is disabled''\<rparr>,
      trace)"
  using assms by (simp add: batch_item_def hasattr_truncate_def Let_def)

lemma batch_item_accepted:
  assumes "\<not> (250 < length (str_split (review_text r)) \<and> \<not> ReviewRequest.truncate_flag r)"
  shows "(\<exists>x e. batch_item P request r trace =
            (Inl \<lparr>status_code = 500, detail = ''Error analyzing batch sentiment: '' @ e\<rparr>,
             trace @ [x])
          \<and> P (snd x) = Inl e)
       \<or> (\<exists>x item. batch_item P request r trace = (Inr item, trace @ [x]))"
proof -
  let ?long = "250 < length (str_split (review_text r))"
  let ?x = "if ?long \<and> ReviewRequest.truncate_flag r
            then str_join (take 250 (str_split (preprocess_text (review_text r))))
            else preprocess_text (review_text r)"
  have short: "\<not> ?long \<Longrightarrow> \<not> 250 < length (str_split (preprocess_text (review_text r)))"
    using word_count_preprocess_text [of "review_text r"] by simp
  show ?thesis
  proof (cases "P (pipeline_input ?x)")
    case (Inl e)
    have "analyze P ?x trace = (Inl e, trace @ [(?x, pipeline_input ?x)])"
      using Inl by (rule analyze_Inl)
    then have "batch_item P request r trace =
        (Inl \<lparr>status_code = 500, detail = ''Error analyzing batch sentiment: '' @ e\<rparr>,
         trace @ [(?x, pipeline_input ?x)])"
      using assms short
      by (auto simp add: batch_item_def hasattr_truncate_def Let_def
          simp del: str_split_join_take split: if_splits)
    moreover have "P (snd (?x, pipeline_input ?x)) = Inl e" using Inl by simp
    ultimately show ?thesis by blast
  next
    case (Inr ls)
    obtain label s where "ls = (label, s)" by (cases ls)
    with Inr obtain a where "analyze P ?x trace = (Inr a, trace @ [(?x, pipeline_input ?x)])"
      using analyze_Inr [of P ?x label s trace] by auto
    then have "\<exists>item. batch_item P request r trace = (Inr item, trace @ [(?x, pipeline_input ?x)])"
      using assms short
      by (auto simp add: batch_item_def hasattr_truncate_def Let_def
          simp del: str_split_join_take split: if_splits)
    then show ?thesis by blast
  qed
qed

lemma batch_loop_rejects:
  assumes "250 < length (str_split (review_text bad))"
    and "\<not> ReviewRequest.truncate_flag bad"
  shows "\<forall>r\<in>set pre. \<not> (250 < length (str_split (review_text r))
            \<and> \<not> ReviewRequest.truncate_flag r) \<Longrightarrow>
   \<exists>e new. batch_loop P request (pre @ bad # post) collected trace = (Inl e, trace @ new)
     \<and> length new \<le> length pre
     \<and> (e = \<lparr>status_code = 400,
              detail = ''Review '' @ str_of (ReviewRequest.review_id bad) @
                '' exceeds model'' @ [CHR 0x27] @
                ''s token limit (>250 words / ~512 tokens) and truncation is disabled''\<rparr>
         \<or> status_code e = 500)
     \<and> ((\<forall>t. \<exists>label s. P t = Inr (label, s)) \<longrightarrow>
          e = \<lparr>status_code = 400,
               detail = ''Review '' @ str_of (ReviewRequest.review_id bad) @
                 '' exceeds model'' @ [CHR 0x27] @
                 ''s token limit (>250 words / ~512 tokens) and truncation is disabled''\<rparr>
          \<and> length new = length pre)"
proof (induction pre arbitrary: collected trace)
  case Nil
  show ?case
    using batch_item_rejected [OF assms, of P request trace] by simp
next
  case (Cons r pre)
  have r: "\<not> (250 < length (str_split (review_text r)) \<and> \<not> ReviewRequest.truncate_flag r)"
    using Cons.prems by simp
  have pre: "\<forall>r\<in>set pre. \<not> (250 < length (str_split (review_text r))
            \<and> \<not> ReviewRequest.truncate_flag r)"
    using Cons.prems by simp
  from batch_item_accepted [OF r, of P request trace]
  show ?case
  proof
    assume "\<exists>x e. batch_item P request r trace =
            (Inl \<lparr>status_code = 500, detail = ''Error analyzing batch sentiment: '' @ e\<rparr>,
             trace @ [x])
          \<and> P (snd x) = Inl e"
    then obtain x e where item: "batch_item P request r trace =
            (Inl \<lparr>status_code = 500, detail = ''Error analyzing batch sentiment: '' @ e\<rparr>,
             trace @ [x])" and fails: "P (snd x) = Inl e" by blast
    have "\<not> (\<forall>t. \<exists>label s. P t = Inr (label, s))" using fails by (metis sum.distinct(1))
    then show ?thesis using item
      by (intro exI [of _ "\<lparr>status_code = 500,
          detail = ''Error analyzing batch sentiment: '' @ e\<rparr>"] exI [of _ "[x]"]) simp
  next
    assume "\<exists>x item. batch_item P request r trace = (Inr item, trace @ [x])"
    then obtain x item where item: "batch_item P request r trace = (Inr item, trace @ [x])"
      by blast
    from Cons.IH [OF pre, of "collected @ [item]" "trace @ [x]"]
    obtain e new where
      loop: "batch_loop P request (pre @ bad # post) (collected @ [item]) (trace @ [x])
          = (Inl e, (trace @ [x]) @ new)"
      and len: "length new \<le> length pre"
      and err: "e = \<lparr>status_code = 400,
              detail = ''Review '' @ str_of (ReviewRequest.review_id bad) @
                '' exceeds model'' @ [CHR 0x27] @
                ''s token limit (>250 words / ~512 tokens) and truncation is disabled''\<rparr>
         \<or> status_code e = 500"
      and ok: "(\<forall>t. \<exists>label s. P t = Inr (label, s)) \<longrightarrow>
          e = \<lparr>status_code = 400,
               detail = ''Review '' @ str_of (ReviewRequest.review_id bad) @
                 '' exceeds model'' @ [CHR 0x27] @
                 ''s token limit (>250 words / ~512 tokens) and truncation is disabled''\<rparr>
          \<and> length new = length pre"
      by blast
    have "batch_loop P request ((r # pre) @ bad # post) collected trace
        = (Inl e, trace @ (x # new))"
      using item loop by simp
    moreover have "length (x # new) \<le> length (r # pre)" using len by simp
    moreover have "(\<forall>t. \<exists>label s. P t = Inr (label, s)) \<longrightarrow>
          e = \<lparr>status_code = 400,
               detail = ''Review '' @ str_of (ReviewRequest.review_id bad) @
                 '' exceeds model'' @ [CHR 0x27] @
                 ''s token limit (>250 words / ~512 tokens) and truncation is disabled''\<rparr>
          \<and> length (x # new) = length (r # pre)"
      using ok by simp
    ultimately show ?thesis using err by blast
  qed
qed


text \<open>
  Claim C2 as stated: a batch holding a text of more than 250 words with truncation disabled
  fails with a 400 before any classifier call. It fails twice: the items before the
  offending one have been submitted to the classifier when the 400 is raised, and when the
  classifier raises on one of them the request ends with a 500.
\<close>

theorem C2_batch_counterexample:
  "analyze_batch (const_pipeline ''POSITIVE'' 1)
     \<lparr>reviews =
        [\<lparr>review_text = ''good'', review_id = Some ''b1'', source = None,
          truncate_flag = True\<rparr>,
         \<lparr>review_text = repeated 251 (CHR ''a''), review_id = Some ''b2'', source = None,
          truncate_flag = False\<rparr>],
      truncate_flag = True\<rparr> []
   = (Inl \<lparr>status_code = 400,
           detail = ''Review b2 exceeds model'' @ [CHR 0x27] @
             ''s token limit (>250 words / ~512 tokens) and truncation is disabled''\<rparr>,
      [(''good'', ''good'')])
   \<and> analyze_batch failing_pipeline
     \<lparr>reviews =
        [\<lparr>review_text = ''good'', review_id = Some ''b1'', source = None,
          truncate_flag = True\<rparr>,
         \<lparr>review_text = repeated 251 (CHR ''a''), review_id = Some ''b2'', source = None,
          truncate_flag = False\<rparr>],
      truncate_flag = True\<rparr> []
   = (Inl \<lparr>status_code = 500, detail = ''Error analyzing batch sentiment: model error''\<rparr>,
      [(''good'', ''good'')])"
proof -
  have w: "str_split ''good'' = [''good'']" by code_simp
  have p: "preprocess_text ''good'' = ''good''" by code_simp
  have long: "length (str_split (repeated 251 (CHR ''a''))) = 251"
    by (simp add: str_split_repeated not_isspace_a)
  show ?thesis
    by (simp add: analyze_batch_def batch_item_def hasattr_truncate_def analyze_def
        pipeline_input_def const_pipeline_def failing_pipeline_def str_of_def Let_def w p long)
qed

text \<open>
  Claim C2, amended: a review of more than 250 words with truncation disabled makes the
  single-item endpoint fail with the 400 error without any classifier call. A batch whose
  first such review comes after the reviews \<open>pre\<close> always fails, with no results: the
  classifier is called at most once for each review of \<open>pre\<close> and never for the offending
  review or a later one; the error is the 400 naming the offending review's identifier,
  or a 500 when the classifier raised on a review of \<open>pre\<close>; when the classifier never
  raises, it is the 400, after exactly one call for each review of \<open>pre\<close>.
\<close>

theorem C2_rejection:
  assumes "250 < length (str_split (review_text bad))"
    and "\<not> ReviewRequest.truncate_flag bad"
  shows "analyze_sentiment P bad trace =
      (Inl \<lparr>status_code = 400,
            detail = ''Text exceeds model'' @ [CHR 0x27] @
              ''s token limit (>250 words / ~512 tokens) and truncation is disabled''\<rparr>,
       trace)
   \<and> (\<forall>request pre post.
        reviews request = pre @ bad # post
        \<and> (\<forall>r\<in>set pre. \<not> (250 < length (str_split (review_text r))
              \<and> \<not> ReviewRequest.truncate_flag r))
        \<longrightarrow> (\<exists>e new. analyze_batch P request trace = (Inl e, trace @ new)
              \<and> length new \<le> length pre
              \<and> (e = \<lparr>status_code = 400,
                       detail = ''Review '' @ str_of (ReviewRequest.review_id bad) @
                         '' exceeds model'' @ [CHR 0x27] @
                         ''s token limit (>250 words / ~512 tokens) and truncation is disabled''\<rparr>
                  \<or> status_code e = 500)
              \<and> ((\<forall>t. \<exists>label s. P t = Inr (label, s)) \<longrightarrow>
                   e = \<lparr>status_code = 400,
                        detail = ''Review '' @ str_of (ReviewRequest.review_id bad) @
                          '' exceeds model'' @ [CHR 0x27] @
                          ''s token limit (>250 words / ~512 tokens) and truncation is disabled''\<rparr>
                   \<and> length new = length pre)))"
proof (intro conjI allI impI)
  show "analyze_sentiment P bad trace =
      (Inl \<lparr>status_code = 400,
            detail = ''Text exceeds model'' @ [CHR 0x27] @
              ''s token limit (>250 words / ~512 tokens) and truncation is disabled''\<rparr>,
       trace)"
    using assms by (simp add: analyze_sentiment_def Let_def)
next
  fix request :: BatchReviewRequest and pre post
  assume h: "reviews request = pre @ bad # post
        \<and> (\<forall>r\<in>set pre. \<not> (250 < length (str_split (review_text r))
              \<and> \<not> ReviewRequest.truncate_flag r))"
  then have pre: "\<forall>r\<in>set pre. \<not> (250 < length (str_split (review_text r))
              \<and> \<not> ReviewRequest.truncate_flag r)" by blast
  show "\<exists>e new. analyze_batch P request trace = (Inl e, trace @ new)
              \<and> length new \<le> length pre
              \<and> (e = \<lparr>status_code = 400,
                       detail = ''Review '' @ str_of (ReviewRequest.review_id bad) @
                         '' exceeds model'' @ [CHR 0x27] @
                         ''s token limit (>250 words / ~512 tokens) and truncation is disabled''\<rparr>
                  \<or> status_code e = 500)
              \<and> ((\<forall>t. \<exists>label s. P t = Inr (label, s)) \<longrightarrow>
                   e = \<lparr>status_code = 400,
                        detail = ''Review '' @ str_of (ReviewRequest.review_id bad) @
                          '' exceeds model'' @ [CHR 0x27] @
                          ''s token limit (>250 words / ~512 tokens) and truncation is disabled''\<rparr>
                   \<and> length new = length pre)"
    using batch_loop_rejects [OF assms pre, of P request post "[]" trace] h
    by (simp add: analyze_batch_def)
qed

text \<open>The amended claim C2 on the single-item endpoint at a review of 251 words.\<close>

theorem C2_rejection_witness:
  "250 < length (str_split (review_text
       \<lparr>review_text = repeated 251 (CHR ''a''), review_id = Some ''b2'', source = None,
        truncate_flag = False\<rparr>))
   \<and> \<not> ReviewRequest.truncate_flag
       \<lparr>review_text = repeated 251 (CHR ''a''), review_id = Some ''b2'', source = None,
        truncate_flag = False\<rparr>
   \<and> analyze_sentiment failing_pipeline
       \<lparr>review_text = repeated 251 (CHR ''a''), review_id = Some ''b2'', source = None,
        truncate_flag = False\<rparr> []
     = (Inl \<lparr>status_code = 400,
             detail = ''Text exceeds model'' @ [CHR 0x27] @
               ''s token limit (>250 words / ~512 tokens) and truncation is disabled''\<rparr>,
        [])"
proof -
  let ?bad = "\<lparr>review_text = repeated 251 (CHR ''a''), review_id = Some ''b2'',
        source = None, truncate_flag = False\<rparr>"
  have long: "250 < length (str_split (review_text ?bad))"
    by (simp add: str_split_repeated not_isspace_a)
  have flag: "\<not> ReviewRequest.truncate_flag ?bad" by simp
  show ?thesis
    using long flag C2_rejection [OF long flag, of failing_pipeline "[]"] by blast
qed

subsection \<open>Long texts with truncation enabled: the calls and the responses\<close>







end
